theory Spec2Isabelle
  imports Main "HOL-Library.Word"
begin

unbundle bit_operations_syntax

section \<open>Exceptions\<close>

text \<open>
  The module raises its own \<open>DecryptError\<close>; the library calls it makes raise
  \<open>TypeError\<close> (\<open>b64decode\<close> on incorrect padding), \<open>IndexError\<close> (a list index
  out of range) and \<open>ValueError\<close> (a cipher refusing a key or a data length).
  A Python \<open>str\<close> of the module is a byte string: it is a \<open>string\<close> here, one
  \<open>char\<close> per byte.
\<close>

datatype error = TypeError | IndexError | ValueError | DecryptError

section \<open>Library functions the module imports\<close>

subsection \<open>\<open>zlib.crc32\<close>\<close>

text \<open>
  The CRC-32 of zlib: reflected polynomial \<open>0xEDB88320\<close>, initial value and final
  XOR \<open>0xFFFFFFFF\<close>, one byte at a time, eight shifts per byte. The 32-bit
  register is an \<open>int\<close> that stays below \<open>2 ^ 32\<close>, since every step shifts
  right. Python 2 returns the register as a signed 32-bit integer, which is why
  the module masks the result with \<open>0xffffffff\<close>.
\<close>

definition crc_shift :: "int \<Rightarrow> int" where
  "crc_shift c = (if c mod 2 = 1 then (c div 2) XOR 0xEDB88320 else c div 2)"

definition crc_byte :: "int \<Rightarrow> char \<Rightarrow> int" where
  "crc_byte c b = (crc_shift ^^ 8) (c XOR of_char b)"

definition crc32 :: "string \<Rightarrow> int" where
  "crc32 s =
     (let c = foldl crc_byte 0xFFFFFFFF s XOR 0xFFFFFFFF
      in if c \<ge> 0x80000000 then c - 0x100000000 else c)"

subsection \<open>\<open>Crypto.Util.number.long_to_bytes\<close> and \<open>bytes_to_long\<close>\<close>

text \<open>
  \<open>be_bytes n\<close> is the big-endian byte string of a positive integer without
  leading zero bytes (the loop \<open>while n > 0\<close> of \<open>long_to_bytes\<close> followed by its
  stripping of leading zeros). \<open>long_to_bytes\<close> gives one zero byte for \<open>n \<le> 0\<close>
  and pads the front with zero bytes to a multiple of \<open>blocksize\<close> when that is
  positive. \<open>bytes_to_long\<close> reads a byte string as a big-endian integer; the
  empty string reads as 0.
\<close>

function be_bytes :: "int \<Rightarrow> string" where
  "be_bytes n = (if n \<le> 0 then [] else be_bytes (n div 256) @ [char_of (n mod 256)])"
  by pat_completeness auto
termination
  by (relation "measure nat") auto

declare be_bytes.simps [simp del]

definition long_to_bytes :: "int \<Rightarrow> nat \<Rightarrow> string" where
  "long_to_bytes n blocksize =
     (let s = (if n \<le> 0 then [CHR 0x00] else be_bytes n)
      in if blocksize > 0 \<and> length s mod blocksize \<noteq> 0
         then replicate (blocksize - length s mod blocksize) (CHR 0x00) @ s
         else s)"

definition bytes_to_long :: "string \<Rightarrow> int" where
  "bytes_to_long s = foldl (\<lambda>acc c. acc * 256 + of_char c) 0 s"

subsection \<open>\<open>base64.b64encode\<close> and \<open>base64.b64decode\<close>\<close>

definition b64chars :: string where
  "b64chars = ''ABCDEFGHIJKLMNOPQRSTUVWXYZabcdefghijklmnopqrstuvwxyz0123456789+/''"

definition b64char :: "nat \<Rightarrow> char" where
  "b64char v = b64chars ! v"

text \<open>Three bytes become four characters; a last group of one or two bytes is padded with \<open>=\<close>.\<close>

fun b64encode :: "string \<Rightarrow> string" where
  "b64encode [] = []"
| "b64encode [a] =
     (let x = (of_char a :: nat)
      in [b64char (x div 4), b64char (x mod 4 * 16), CHR ''='', CHR ''=''])"
| "b64encode [a, b] =
     (let x = (of_char a :: nat); y = (of_char b :: nat)
      in [b64char (x div 4), b64char (x mod 4 * 16 + y div 16),
          b64char (y mod 16 * 4), CHR ''=''])"
| "b64encode (a # b # c # rest) =
     (let x = (of_char a :: nat); y = (of_char b :: nat); z = (of_char c :: nat)
      in [b64char (x div 4), b64char (x mod 4 * 16 + y div 16),
          b64char (y mod 16 * 4 + z div 64), b64char (z mod 64)] @ b64encode rest)"

text \<open>
  The decoder is the loop of \<open>binascii.a2b_base64\<close>, which \<open>b64decode\<close> calls:
  bytes above \<open>0x7f\<close>, CR, LF, space and every character outside the alphabet are
  skipped; a \<open>=\<close> ends the input when it stands where padding may stand and is
  skipped otherwise; six bits are shifted in per character and a byte is written
  whenever eight are there. Bits left over at the end are the error
  "Incorrect padding", which \<open>b64decode\<close> raises as \<open>TypeError\<close>.
  In the table of the decoder \<open>=\<close> counts as a valid character of value 0.
\<close>

fun index_of :: "char \<Rightarrow> string \<Rightarrow> nat option" where
  "index_of c [] = None"
| "index_of c (x # xs) = (if c = x then Some 0 else map_option Suc (index_of c xs))"

definition table_a2b_base64 :: "char \<Rightarrow> nat option" where
  "table_a2b_base64 c = (if c = CHR ''='' then Some 0 else index_of c b64chars)"

fun binascii_find_valid :: "string \<Rightarrow> nat \<Rightarrow> char option" where
  "binascii_find_valid [] num = None"
| "binascii_find_valid (c # s) num =
     (if (of_char c :: nat) \<le> 0x7f \<and> table_a2b_base64 c \<noteq> None
      then (if num = 0 then Some c else binascii_find_valid s (num - 1))
      else binascii_find_valid s num)"

text \<open>
  \<open>a2b_loop ascii quad_pos leftbits leftchar\<close> returns the final \<open>leftbits\<close> and the
  bytes written. \<open>leftchar\<close> holds fewer than \<open>2 ^ leftbits\<close>, so the shift-and-or
  of the C code is the multiplication and addition below.
\<close>

fun a2b_loop :: "string \<Rightarrow> nat \<Rightarrow> nat \<Rightarrow> nat \<Rightarrow> nat \<times> string" where
  "a2b_loop [] quad_pos leftbits leftchar = (leftbits, [])"
| "a2b_loop (c # cs) quad_pos leftbits leftchar =
     (if (of_char c :: nat) > 0x7f \<or> c = CHR 0x0D \<or> c = CHR 0x0A \<or> c = CHR '' ''
      then a2b_loop cs quad_pos leftbits leftchar
      else if c = CHR ''=''
      then (if quad_pos < 2 \<or>
               (quad_pos = 2 \<and> binascii_find_valid (c # cs) 1 \<noteq> Some (CHR ''=''))
            then a2b_loop cs quad_pos leftbits leftchar
            else (0, []))
      else (case table_a2b_base64 c of
              None \<Rightarrow> a2b_loop cs quad_pos leftbits leftchar
            | Some v \<Rightarrow>
                (let quad_pos' = (quad_pos + 1) mod 4;
                     leftchar' = leftchar * 64 + v;
                     leftbits' = leftbits + 6
                 in if leftbits' \<ge> 8
                    then (case a2b_loop cs quad_pos' (leftbits' - 8)
                                 (leftchar' mod 2 ^ (leftbits' - 8)) of
                            (l, out) \<Rightarrow>
                              (l, char_of (leftchar' div 2 ^ (leftbits' - 8) mod 256) # out))
                    else a2b_loop cs quad_pos' leftbits' leftchar')))"

text \<open>What the decoder needs of the character for a six-bit value, and that it is not the separator of the key formats.\<close>

definition b64char_ok :: "nat \<Rightarrow> bool" where
  "b64char_ok v \<longleftrightarrow>
     (of_char (b64char v) :: nat) \<le> 0x7f \<and> b64char v \<noteq> CHR 0x0D \<and> b64char v \<noteq> CHR 0x0A \<and>
     b64char v \<noteq> CHR '' '' \<and> b64char v \<noteq> CHR ''='' \<and> b64char v \<noteq> CHR '':'' \<and>
     table_a2b_base64 (b64char v) = Some v"

definition b64decode :: "string \<Rightarrow> error + string" where
  "b64decode s =
     (case a2b_loop s 0 0 0 of
        (leftbits, out) \<Rightarrow> if leftbits \<noteq> 0 then Inl TypeError else Inr out)"

subsection \<open>\<open>str.split\<close>, \<open>str.rstrip\<close> and list indexing\<close>

text \<open>\<open>split\<close> on a separator always returns at least one field.\<close>

fun split :: "char \<Rightarrow> string \<Rightarrow> string list" where
  "split d [] = [[]]"
| "split d (c # cs) =
     (if c = d then [] # split d cs
      else (case split d cs of [] \<Rightarrow> [[c]] | f # fs \<Rightarrow> (c # f) # fs))"

definition rstrip :: "char \<Rightarrow> string \<Rightarrow> string" where
  "rstrip z s = rev (dropWhile (\<lambda>c. c = z) (rev s))"

definition getitem :: "'a list \<Rightarrow> nat \<Rightarrow> error + 'a" where
  "getitem xs i = (if i < length xs then Inr (xs ! i) else Inl IndexError)"

subsection \<open>The block ciphers of \<open>Crypto.Cipher\<close>\<close>

text \<open>
  \<open>AES\<close> and \<open>Blowfish\<close> are parameters of the module's functions. A cipher is
  the set of keys \<open>new\<close> accepts, its block size, and what \<open>encrypt\<close> and
  \<open>decrypt\<close> of a cipher object made from a key compute in the default (ECB) mode.
  \<open>new\<close> raises \<open>ValueError\<close> on a key it refuses; \<open>encrypt\<close> and \<open>decrypt\<close> raise
  \<open>ValueError\<close> on data whose length is not a multiple of the block size.
\<close>

record block_cipher =
  key_valid :: "string \<Rightarrow> bool"
  block_size :: nat
  ecb_encrypt :: "string \<Rightarrow> string \<Rightarrow> string"
  ecb_decrypt :: "string \<Rightarrow> string \<Rightarrow> string"

definition cipher_new :: "block_cipher \<Rightarrow> string \<Rightarrow> error + string" where
  "cipher_new c key = (if key_valid c key then Inr key else Inl ValueError)"

definition cipher_encrypt :: "block_cipher \<Rightarrow> string \<Rightarrow> string \<Rightarrow> error + string" where
  "cipher_encrypt c key d =
     (if length d mod block_size c = 0 then Inr (ecb_encrypt c key d) else Inl ValueError)"

definition cipher_decrypt :: "block_cipher \<Rightarrow> string \<Rightarrow> string \<Rightarrow> error + string" where
  "cipher_decrypt c key d =
     (if length d mod block_size c = 0 then Inr (ecb_decrypt c key d) else Inl ValueError)"

text \<open>
  What the module relies on: under an accepted key, decryption undoes encryption
  of block-aligned data, and encryption keeps the length.
\<close>

definition cipher_correct :: "block_cipher \<Rightarrow> bool" where
  "cipher_correct c \<longleftrightarrow>
     (\<forall>k d. key_valid c k \<and> length d mod block_size c = 0 \<longrightarrow>
        length (ecb_encrypt c k d) = length d \<and> ecb_decrypt c k (ecb_encrypt c k d) = d)"

text \<open>
  A small cipher of that kind, to run the module on: every byte is shifted by the
  first byte of the key. It accepts the keys whose length is in \<open>lens\<close>.
\<close>

definition shift_cipher :: "nat \<Rightarrow> nat list \<Rightarrow> block_cipher" where
  "shift_cipher bs lens =
     \<lparr> key_valid = (\<lambda>k. length k \<in> set lens \<and> k \<noteq> []),
       block_size = bs,
       ecb_encrypt = (\<lambda>k d. map (\<lambda>c. char_of ((of_char c :: int) + of_char (hd k))) d),
       ecb_decrypt = (\<lambda>k d. map (\<lambda>c. char_of ((of_char c :: int) - of_char (hd k))) d) \<rparr>"

section \<open>Checksum padding management\<close>

definition wrapsum :: "string \<Rightarrow> string" where
  "wrapsum plainval =
     (let crc = crc32 plainval AND 0xffffffff
      in plainval @ long_to_bytes crc 4)"

definition chksum :: "string \<Rightarrow> error + string" where
  "chksum sumval =
     (let crc = drop (length sumval - 4) sumval;
          plainval = take (length sumval - 4) sumval;
          cmpcrc = crc32 plainval AND 0xffffffff
      in if bytes_to_long crc \<noteq> cmpcrc then Inl DecryptError else Inr plainval)"

section \<open>ElGamal public key and message serialization\<close>

definition serial_elgamal_msg :: "string \<times> string \<Rightarrow> string" where
  "serial_elgamal_msg stuff = b64encode (fst stuff) @ '':'' @ b64encode (snd stuff)"

text \<open>
  The decoders evaluate \<open>b64decode(x[i])\<close>, for the keys inside \<open>bytes_to_long\<close>,
  field after field from the left: the first failure is the one raised.
\<close>

definition b64decode_field :: "string list \<Rightarrow> nat \<Rightarrow> error + string" where
  "b64decode_field x i = (case getitem x i of Inl e \<Rightarrow> Inl e | Inr f \<Rightarrow> b64decode f)"

definition long_field :: "string list \<Rightarrow> nat \<Rightarrow> error + int" where
  "long_field x i = (case b64decode_field x i of Inl e \<Rightarrow> Inl e | Inr b \<Rightarrow> Inr (bytes_to_long b))"

definition unserial_elgamal_msg :: "string \<Rightarrow> error + string \<times> string" where
  "unserial_elgamal_msg stuff =
     (let x = split (CHR '':'') stuff
      in case b64decode_field x 0 of Inl e \<Rightarrow> Inl e | Inr a \<Rightarrow>
         case b64decode_field x 1 of Inl e \<Rightarrow> Inl e | Inr b \<Rightarrow> Inr (a, b))"

definition serial_elgamal_pubkey :: "int \<times> int \<times> int \<Rightarrow> string" where
  "serial_elgamal_pubkey stuff =
     (case stuff of (s0, s1, s2) \<Rightarrow>
        b64encode (long_to_bytes s0 0) @ '':'' @
        b64encode (long_to_bytes s1 0) @ '':'' @
        b64encode (long_to_bytes s2 0))"

definition unserial_elgamal_pubkey :: "string \<Rightarrow> error + int \<times> int \<times> int" where
  "unserial_elgamal_pubkey stuff =
     (let x = split (CHR '':'') stuff
      in case long_field x 0 of Inl e \<Rightarrow> Inl e | Inr a \<Rightarrow>
         case long_field x 1 of Inl e \<Rightarrow> Inl e | Inr b \<Rightarrow>
         case long_field x 2 of Inl e \<Rightarrow> Inl e | Inr c \<Rightarrow> Inr (a, b, c))"

definition serial_elgamal_privkey :: "int \<times> int \<times> int \<times> int \<Rightarrow> string" where
  "serial_elgamal_privkey stuff =
     (case stuff of (s0, s1, s2, s3) \<Rightarrow>
        b64encode (long_to_bytes s0 0) @ '':'' @
        b64encode (long_to_bytes s1 0) @ '':'' @
        b64encode (long_to_bytes s2 0) @ '':'' @
        b64encode (long_to_bytes s3 0))"

definition unserial_elgamal_privkey :: "string \<Rightarrow> error + int \<times> int \<times> int \<times> int" where
  "unserial_elgamal_privkey stuff =
     (let x = split (CHR '':'') stuff
      in case long_field x 0 of Inl e \<Rightarrow> Inl e | Inr a \<Rightarrow>
         case long_field x 1 of Inl e \<Rightarrow> Inl e | Inr b \<Rightarrow>
         case long_field x 2 of Inl e \<Rightarrow> Inl e | Inr c \<Rightarrow>
         case long_field x 3 of Inl e \<Rightarrow> Inl e | Inr d \<Rightarrow> Inr (a, b, c, d))"

section \<open>Blowfish encryption of the private key\<close>

definition encrypt_privkey :: "block_cipher \<Rightarrow> string \<Rightarrow> string \<Rightarrow> error + string" where
  "encrypt_privkey Blowfish something pw =
     (case cipher_new Blowfish pw of Inl e \<Rightarrow> Inl e | Inr b \<Rightarrow>
        (let nsomething = wrapsum something;
             add = replicate ((8 - length nsomething mod 8) mod 8) (CHR 0x00)
         in case cipher_encrypt Blowfish b (nsomething @ add) of
              Inl e \<Rightarrow> Inl e
            | Inr ct \<Rightarrow> Inr (b64encode ct)))"

definition decrypt_privkey :: "block_cipher \<Rightarrow> string \<Rightarrow> string \<Rightarrow> error + string" where
  "decrypt_privkey Blowfish something pw =
     (case cipher_new Blowfish pw of Inl e \<Rightarrow> Inl e | Inr b \<Rightarrow>
      case b64decode something of Inl e \<Rightarrow> Inl e | Inr raw \<Rightarrow>
      case cipher_decrypt Blowfish b raw of Inl e \<Rightarrow> Inl e | Inr pt \<Rightarrow>
        chksum (rstrip (CHR 0x00) pt))"

section \<open>AES encryption of the services' secrets\<close>

text \<open>
  \<open>randfunc\<close> is the byte source of the random pool, a parameter here.
  \<open>decrypt_secret\<close> returns the secret and the lines it has printed: the two
  lines of the fallback to the old format, or none.
\<close>

definition old_algorithm_note :: "string list" where
  "old_algorithm_note =
     [''NOTE: Using old decryption algorithm. Please update password in database.'',
      ''TODO: remove this functionality, once database migration was done'']"

definition encrypt_secret ::
  "block_cipher \<Rightarrow> (nat \<Rightarrow> string) \<Rightarrow> string \<Rightarrow> error + string \<times> string" where
  "encrypt_secret AES randfunc secret =
     (let seckey = randfunc 32
      in case cipher_new AES seckey of Inl e \<Rightarrow> Inl e | Inr a \<Rightarrow>
         (let secret' = wrapsum secret;
              padded_secret =
                secret' @ replicate ((16 - length secret' mod 16) mod 16) (CHR 0x00)
          in case cipher_encrypt AES a padded_secret of
               Inl e \<Rightarrow> Inl e
             | Inr ciphertext \<Rightarrow> Inr (b64encode seckey, b64encode ciphertext)))"

definition decrypt_secret ::
  "block_cipher \<Rightarrow> string \<Rightarrow> string \<Rightarrow> error + string \<times> string list" where
  "decrypt_secret AES seckey ciphertext =
     (case b64decode seckey of Inl e \<Rightarrow> Inl e | Inr key \<Rightarrow>
      case cipher_new AES key of Inl e \<Rightarrow> Inl e | Inr a \<Rightarrow>
      case b64decode ciphertext of Inl e \<Rightarrow> Inl e | Inr ciphertext' \<Rightarrow>
      case cipher_decrypt AES a ciphertext' of Inl e \<Rightarrow> Inl e | Inr pt \<Rightarrow>
        (let secret = rstrip (CHR 0x00) pt
         in case chksum secret of
              Inr sec2 \<Rightarrow> Inr (sec2, [])
            | Inl e \<Rightarrow> Inr (secret, old_algorithm_note)))"

text \<open>The caller's reading of the result: the legacy flag is set when the note was printed.\<close>

definition legacy :: "string \<times> string list \<Rightarrow> bool" where
  "legacy r \<longleftrightarrow> snd r \<noteq> []"

section \<open>Decrypting what was just encrypted\<close>

text \<open>
  The calls \<open>decrypt_secret(*encrypt_secret(secret))\<close> and
  \<open>decrypt_privkey(encrypt_privkey(something, pw), pw)\<close>.
\<close>

definition decrypt_encrypt_secret ::
  "block_cipher \<Rightarrow> (nat \<Rightarrow> string) \<Rightarrow> string \<Rightarrow> error + string \<times> string list" where
  "decrypt_encrypt_secret AES randfunc secret =
     (case encrypt_secret AES randfunc secret of
        Inl e \<Rightarrow> Inl e
      | Inr (seckey, ciphertext) \<Rightarrow> decrypt_secret AES seckey ciphertext)"

definition decrypt_encrypt_privkey :: "block_cipher \<Rightarrow> string \<Rightarrow> string \<Rightarrow> error + string" where
  "decrypt_encrypt_privkey Blowfish something pw =
     (case encrypt_privkey Blowfish something pw of
        Inl e \<Rightarrow> Inl e
      | Inr blob \<Rightarrow> decrypt_privkey Blowfish blob pw)"

section \<open>Integers and byte strings\<close>

lemma crc_unsigned_range: "0 \<le> crc32 s AND 0xffffffff \<and> crc32 s AND 0xffffffff < 2 ^ 32"
proof -
  have "(0xffffffff::int) = mask 32" by (simp add: mask_eq_exp_minus_1)
  then have eq: "crc32 s AND 0xffffffff = take_bit 32 (crc32 s)"
    by (simp add: take_bit_eq_mask)
  have "take_bit 32 (crc32 s) < 2 ^ 32" by (rule take_bit_int_less_exp)
  moreover have "0 \<le> take_bit 32 (crc32 s)" by simp
  ultimately show ?thesis unfolding eq by blast
qed

lemma crc32_Nil: "crc32 [] AND 0xffffffff = 0"
  by (simp add: crc32_def)

lemma of_char_int_nonneg: "0 \<le> (of_char c :: int)"
proof -
  have "(of_char c :: int) = int (of_char c)" by (simp add: of_nat_of_char)
  then show ?thesis by simp
qed

lemma of_char_int_zero_iff: "(of_char c :: int) = 0 \<longleftrightarrow> c = CHR 0x00"
proof -
  have "(of_char c :: int) = of_char (CHR 0x00) \<longleftrightarrow> c = CHR 0x00"
    by (rule of_char_eq_iff)
  then show ?thesis by simp
qed

lemma bytes_to_long_Nil [simp]: "bytes_to_long [] = 0"
  by (simp add: bytes_to_long_def)

lemma bytes_to_long_snoc: "bytes_to_long (s @ [c]) = bytes_to_long s * 256 + of_char c"
  by (simp add: bytes_to_long_def)

lemma bytes_to_long_single: "bytes_to_long [c] = of_char c"
  by (simp add: bytes_to_long_def)

lemma bytes_to_long_nonneg: "0 \<le> bytes_to_long s"
proof (induction s rule: rev_induct)
  case Nil
  show ?case by simp
next
  case (snoc c s)
  then show ?case using of_char_int_nonneg [of c] by (simp add: bytes_to_long_snoc)
qed

lemma bytes_to_long_zero_iff: "bytes_to_long s = 0 \<longleftrightarrow> (\<forall>c \<in> set s. c = CHR 0x00)"
proof (induction s rule: rev_induct)
  case Nil
  show ?case by simp
next
  case (snoc c s)
  have "bytes_to_long s * 256 + of_char c = 0 \<longleftrightarrow> bytes_to_long s = 0 \<and> (of_char c :: int) = 0"
    using bytes_to_long_nonneg [of s] of_char_int_nonneg [of c] by auto
  then show ?case
    by (simp only: bytes_to_long_snoc snoc.IH of_char_int_zero_iff) auto
qed

lemma bytes_to_long_append:
  "bytes_to_long (s @ t) = bytes_to_long s * 256 ^ length t + bytes_to_long t"
proof (induction t rule: rev_induct)
  case Nil
  show ?case by simp
next
  case (snoc c t)
  have "bytes_to_long (s @ t @ [c]) = bytes_to_long ((s @ t) @ [c])" by simp
  also have "\<dots> = bytes_to_long (s @ t) * 256 + of_char c" by (rule bytes_to_long_snoc)
  finally show ?case by (simp add: snoc.IH bytes_to_long_snoc algebra_simps)
qed

lemma bytes_to_long_replicate_zero: "bytes_to_long (replicate k (CHR 0x00)) = 0"
  by (simp add: bytes_to_long_zero_iff)

lemma bytes_to_long_zeros: "bytes_to_long (replicate k (CHR 0x00) @ s) = bytes_to_long s"
  by (simp add: bytes_to_long_append bytes_to_long_replicate_zero)

lemma bytes_to_long_be_bytes: "0 \<le> n \<Longrightarrow> bytes_to_long (be_bytes n) = n"
proof (induction n rule: be_bytes.induct)
  case (1 n)
  show ?case
  proof (cases "n \<le> 0")
    case True
    with 1 show ?thesis by (simp add: be_bytes.simps)
  next
    case False
    then have ih: "bytes_to_long (be_bytes (n div 256)) = n div 256"
      using 1 by simp
    have "be_bytes n = be_bytes (n div 256) @ [char_of (n mod 256)]"
      using False by (subst be_bytes.simps) simp
    then show ?thesis
      by (simp only: bytes_to_long_snoc ih of_char_of) simp
  qed
qed

lemma length_be_bytes: "n < 256 ^ k \<Longrightarrow> length (be_bytes n) \<le> k"
proof (induction n arbitrary: k rule: be_bytes.induct)
  case (1 n)
  show ?case
  proof (cases "n \<le> 0")
    case True
    then show ?thesis by (simp add: be_bytes.simps)
  next
    case False
    then obtain j where k: "k = Suc j" using 1(2) by (cases k) auto
    from 1(2) k have "n div 256 < 256 ^ j" by auto
    with 1(1) False have "length (be_bytes (n div 256)) \<le> j" by simp
    moreover have "be_bytes n = be_bytes (n div 256) @ [char_of (n mod 256)]"
      using False by (subst be_bytes.simps) simp
    ultimately show ?thesis using k by simp
  qed
qed

lemma be_bytes_nonempty: "0 < n \<Longrightarrow> be_bytes n \<noteq> []"
  by (subst be_bytes.simps) simp

lemma bytes_to_long_long_to_bytes: "0 \<le> n \<Longrightarrow> bytes_to_long (long_to_bytes n b) = n"
proof (cases "n = 0")
  case True
  then show ?thesis
    by (simp add: long_to_bytes_def Let_def bytes_to_long_zeros bytes_to_long_single)
next
  case False
  assume "0 \<le> n"
  with False show ?thesis
    by (simp add: long_to_bytes_def Let_def bytes_to_long_zeros bytes_to_long_be_bytes)
qed

lemma length_long_to_bytes_4:
  assumes "0 \<le> n" "n < 2 ^ 32"
  shows "length (long_to_bytes n 4) = 4"
proof (cases "n = 0")
  case True
  then show ?thesis by (simp add: long_to_bytes_def)
next
  case False
  with assms have pos: "0 < n" by simp
  have "n < 256 ^ 4" using assms by simp
  then have le: "length (be_bytes n) \<le> 4" by (rule length_be_bytes)
  have ne: "length (be_bytes n) \<noteq> 0" using be_bytes_nonempty [OF pos] by simp
  define l where "l = length (be_bytes n)"
  from le ne have cases: "l = 1 \<or> l = 2 \<or> l = 3 \<or> l = 4" unfolding l_def by linarith
  have "long_to_bytes n 4 =
          (if l mod 4 \<noteq> 0 then replicate (4 - l mod 4) (CHR 0x00) @ be_bytes n else be_bytes n)"
    using pos by (simp add: long_to_bytes_def Let_def l_def)
  then have "length (long_to_bytes n 4) = (if l mod 4 \<noteq> 0 then 4 - l mod 4 + l else l)"
    by (simp add: l_def)
  also have "\<dots> = 4" using cases by auto
  finally show ?thesis .
qed

lemma chksum_append_4:
  "length t = 4 \<Longrightarrow>
   chksum (p @ t) =
     (if bytes_to_long t \<noteq> (crc32 p AND 0xffffffff) then Inl DecryptError else Inr p)"
  by (simp add: chksum_def Let_def)

lemma length_crc_bytes: "length (long_to_bytes (crc32 p AND 0xffffffff) 4) = 4"
  using crc_unsigned_range [of p] by (intro length_long_to_bytes_4) simp_all

lemma chksum_wrapsum: "chksum (wrapsum p) = Inr p"
proof -
  let ?c = "crc32 p AND 0xffffffff"
  have val: "bytes_to_long (long_to_bytes ?c 4) = ?c"
    using crc_unsigned_range [of p] by (intro bytes_to_long_long_to_bytes) simp
  show ?thesis
    by (simp add: wrapsum_def Let_def chksum_append_4 [OF length_crc_bytes] val)
qed

lemma chksum_short:
  "length s < 4 \<Longrightarrow>
   chksum s = (if \<forall>c \<in> set s. c = CHR 0x00 then Inr [] else Inl DecryptError)"
  by (simp add: chksum_def Let_def crc32_Nil bytes_to_long_zero_iff)


section \<open>Base64\<close>

lemma b64char_ok_all: "list_all b64char_ok [0..<64]"
  by code_simp

lemma b64char_ok: "v < 64 \<Longrightarrow> b64char_ok v"
  using b64char_ok_all by (simp add: list_all_iff)

lemma a2b_loop_b64char:
  assumes "v < 64"
  shows "a2b_loop (b64char v # cs) quad_pos leftbits leftchar =
           (if leftbits + 6 \<ge> 8
            then (case a2b_loop cs ((quad_pos + 1) mod 4) (leftbits + 6 - 8)
                         ((leftchar * 64 + v) mod 2 ^ (leftbits + 6 - 8)) of
                    (l, out) \<Rightarrow>
                      (l, char_of ((leftchar * 64 + v) div 2 ^ (leftbits + 6 - 8) mod 256) # out))
            else a2b_loop cs ((quad_pos + 1) mod 4) (leftbits + 6) (leftchar * 64 + v))"
  using b64char_ok [OF assms] by (simp add: b64char_ok_def Let_def)

lemma digits_div_mod:
  fixes k s b :: nat
  assumes "s < b"
  shows "(k * b + s) div b = k" "(k * b + s) mod b = s"
  using assms by simp_all

lemma pack_first:
  fixes q r s :: nat
  assumes "s < 16"
  shows "(q * 64 + (r * 16 + s)) div 16 = q * 4 + r" "(q * 64 + (r * 16 + s)) mod 16 = s"
proof -
  have e: "q * 64 + (r * 16 + s) = (q * 4 + r) * 16 + s" by simp
  show "(q * 64 + (r * 16 + s)) div 16 = q * 4 + r"
    unfolding e using assms by (rule digits_div_mod)
  show "(q * 64 + (r * 16 + s)) mod 16 = s"
    unfolding e using assms by (rule digits_div_mod)
qed

lemma pack_second:
  fixes q r s :: nat
  assumes "s < 4"
  shows "(q * 64 + (r * 4 + s)) div 4 = q * 16 + r" "(q * 64 + (r * 4 + s)) mod 4 = s"
proof -
  have e: "q * 64 + (r * 4 + s) = (q * 16 + r) * 4 + s" by simp
  show "(q * 64 + (r * 4 + s)) div 4 = q * 16 + r"
    unfolding e using assms by (rule digits_div_mod)
  show "(q * 64 + (r * 4 + s)) mod 4 = s"
    unfolding e using assms by (rule digits_div_mod)
qed

lemma byte_div_bounds:
  fixes x :: nat
  assumes "x < 256"
  shows "x div 4 < 64" "x div 16 < 16" "x div 64 < 4"
  using assms by (simp_all add: div_less_iff_less_mult)

lemma sextet_bounds:
  fixes x y z :: nat
  assumes "x < 256" "y < 256" "z < 256"
  shows "x mod 4 * 16 + y div 16 < 64" "y mod 16 * 4 + z div 64 < 64"
        "x mod 4 * 16 < 64" "y mod 16 * 4 < 64"
proof -
  have a: "x mod 4 < 4" "y mod 16 < 16" by simp_all
  note b = byte_div_bounds [OF assms(2)] byte_div_bounds [OF assms(3)]
  show "x mod 4 * 16 + y div 16 < 64" using a(1) b(2) by linarith
  show "y mod 16 * 4 + z div 64 < 64" using a(2) b(6) by linarith
  show "x mod 4 * 16 < 64" using a(1) by linarith
  show "y mod 16 * 4 < 64" using a(2) by linarith
qed

lemma sextet_first_byte:
  fixes x y :: nat
  assumes "x < 256" "y < 256"
  shows "(x div 4 * 64 + (x mod 4 * 16 + y div 16)) div 16 mod 256 = x"
        "(x div 4 * 64 + (x mod 4 * 16 + y div 16)) mod 16 = y div 16"
  using assms by (simp_all add: pack_first byte_div_bounds)

lemma sextet_second_byte:
  fixes y z :: nat
  assumes "y < 256" "z < 256"
  shows "(y div 16 * 64 + (y mod 16 * 4 + z div 64)) div 4 mod 256 = y"
        "(y div 16 * 64 + (y mod 16 * 4 + z div 64)) mod 4 = z div 64"
  using assms by (simp_all add: pack_second byte_div_bounds)

declare a2b_loop.simps(2) [simp del]

lemma a2b_loop_quad:
  fixes x y z :: nat
  assumes "x < 256" "y < 256" "z < 256"
  shows "a2b_loop (b64char (x div 4) # b64char (x mod 4 * 16 + y div 16) #
                   b64char (y mod 16 * 4 + z div 64) # b64char (z mod 64) # cs) 0 0 0 =
           (case a2b_loop cs 0 0 0 of (l, out) \<Rightarrow> (l, char_of x # char_of y # char_of z # out))"
proof -
  note bd = byte_div_bounds [OF assms(1)] sextet_bounds [OF assms]
  have z64: "z mod 64 < 64" by simp
  have s1: "a2b_loop (b64char (x div 4) # b64char (x mod 4 * 16 + y div 16) #
                   b64char (y mod 16 * 4 + z div 64) # b64char (z mod 64) # cs) 0 0 0 =
            a2b_loop (b64char (x mod 4 * 16 + y div 16) #
                   b64char (y mod 16 * 4 + z div 64) # b64char (z mod 64) # cs) 1 6 (x div 4)"
    by (simp add: a2b_loop_b64char [OF bd(1)])
  have s2: "a2b_loop (b64char (x mod 4 * 16 + y div 16) #
                   b64char (y mod 16 * 4 + z div 64) # b64char (z mod 64) # cs) 1 6 (x div 4) =
            (case a2b_loop (b64char (y mod 16 * 4 + z div 64) # b64char (z mod 64) # cs) 2 4 (y div 16) of
               (l, out) \<Rightarrow> (l, char_of x # out))"
    by (simp add: a2b_loop_b64char [OF bd(4)] sextet_first_byte [OF assms(1,2)]
          numeral_2_eq_2 [symmetric])
  have s3: "a2b_loop (b64char (y mod 16 * 4 + z div 64) # b64char (z mod 64) # cs) 2 4 (y div 16) =
            (case a2b_loop (b64char (z mod 64) # cs) 3 2 (z div 64) of
               (l, out) \<Rightarrow> (l, char_of y # out))"
    by (simp add: a2b_loop_b64char [OF bd(5)] sextet_second_byte [OF assms(2,3)])
  have s4: "a2b_loop (b64char (z mod 64) # cs) 3 2 (z div 64) =
            (case a2b_loop cs 0 0 0 of (l, out) \<Rightarrow> (l, char_of z # out))"
    using assms(3) by (simp add: a2b_loop_b64char [OF z64])
  show ?thesis
    unfolding s1 s2 s3 s4 by (simp split: prod.split)
qed

lemma a2b_loop_one:
  fixes x :: nat
  assumes "x < 256"
  shows "a2b_loop [b64char (x div 4), b64char (x mod 4 * 16), CHR ''='', CHR ''=''] 0 0 0 =
           (0, [char_of x])"
proof -
  have b1: "x div 4 < 64" using assms by (rule byte_div_bounds)
  have b2: "x mod 4 * 16 < 64" using sextet_bounds(3) [OF assms assms assms] .
  have e: "(x div 4 * 64 + x mod 4 * 16) div 16 mod 256 = x" "(x div 4 * 64 + x mod 4 * 16) mod 16 = 0"
    using pack_first [of 0 "x div 4" "x mod 4"] assms by simp_all
  have pad: "a2b_loop [CHR ''='', CHR ''=''] 2 4 0 = (0, [])"
    by (simp add: a2b_loop.simps table_a2b_base64_def)
  show ?thesis
    by (simp add: a2b_loop_b64char [OF b1] a2b_loop_b64char [OF b2] e pad
          numeral_2_eq_2 [symmetric])
qed

lemma a2b_loop_two:
  fixes x y :: nat
  assumes "x < 256" "y < 256"
  shows "a2b_loop [b64char (x div 4), b64char (x mod 4 * 16 + y div 16),
                   b64char (y mod 16 * 4), CHR ''=''] 0 0 0 =
           (0, [char_of x, char_of y])"
proof -
  note bd = byte_div_bounds [OF assms(1)] sextet_bounds [OF assms assms(2)]
  have e: "(y div 16 * 64 + y mod 16 * 4) div 4 mod 256 = y" "(y div 16 * 64 + y mod 16 * 4) mod 4 = 0"
    using pack_second [of 0 "y div 16" "y mod 16"] assms by simp_all
  have pad: "a2b_loop [CHR ''=''] 3 2 0 = (0, [])"
    by (simp add: a2b_loop.simps)
  show ?thesis
    by (simp add: a2b_loop_b64char [OF bd(1)] a2b_loop_b64char [OF bd(4)]
          a2b_loop_b64char [OF bd(7)] sextet_first_byte [OF assms] e pad
          numeral_2_eq_2 [symmetric])
qed

lemma a2b_loop_b64encode: "a2b_loop (b64encode s) 0 0 0 = (0, s)"
proof (induction s rule: b64encode.induct)
  case 1
  show ?case by simp
next
  case (2 a)
  show ?case using a2b_loop_one [of "of_char a"] by (simp add: Let_def)
next
  case (3 a b)
  show ?case using a2b_loop_two [of "of_char a" "of_char b"] by (simp add: Let_def)
next
  case (4 a b c rest)
  show ?case
    using a2b_loop_quad [of "of_char a" "of_char b" "of_char c" "b64encode rest"] "4.IH"
    by (simp add: Let_def)
qed

lemma b64decode_b64encode: "b64decode (b64encode s) = Inr s"
  by (simp add: b64decode_def a2b_loop_b64encode)

lemma b64char_not_colon: "v < 64 \<Longrightarrow> CHR '':'' \<noteq> b64char v"
  using b64char_ok [of v] by (auto simp: b64char_ok_def)

lemma b64encode_no_colon: "CHR '':'' \<notin> set (b64encode s)"
proof (induction s rule: b64encode.induct)
  case 1
  show ?case by simp
next
  case (2 a)
  show ?case
    by (simp add: Let_def b64char_not_colon byte_div_bounds sextet_bounds)
next
  case (3 a b)
  have "(of_char a :: nat) mod 4 * 16 + of_char b div 16 < 64"
    using sextet_bounds(1) [of "of_char a" "of_char b" 0] by simp
  then show ?case
    by (simp add: Let_def b64char_not_colon byte_div_bounds sextet_bounds)
next
  case (4 a b c rest)
  have "(of_char a :: nat) mod 4 * 16 + of_char b div 16 < 64"
    "(of_char b :: nat) mod 16 * 4 + of_char c div 64 < 64"
    using sextet_bounds(1,2) [of "of_char a" "of_char b" "of_char c"] by simp_all
  then show ?case
    using "4.IH" by (simp add: Let_def b64char_not_colon byte_div_bounds)
qed

section \<open>Splitting on the separator\<close>

lemma split_nonempty: "split d s \<noteq> []"
  by (induction s) (auto split: list.splits)

lemma split_no_sep: "d \<notin> set s \<Longrightarrow> split d s = [s]"
  by (induction s) auto

lemma split_append_sep: "d \<notin> set a \<Longrightarrow> split d (a @ d # rest) = a # split d rest"
  by (induction a) (auto split: list.splits)

lemma split_two:
  "d \<notin> set a \<Longrightarrow> d \<notin> set b \<Longrightarrow> split d (a @ [d] @ b) = [a, b]"
  by (simp add: split_append_sep split_no_sep)

lemma split_three:
  "d \<notin> set a \<Longrightarrow> d \<notin> set b \<Longrightarrow> d \<notin> set c \<Longrightarrow>
   split d (a @ [d] @ b @ [d] @ c) = [a, b, c]"
  by (simp add: split_append_sep split_no_sep)

lemma split_four:
  "d \<notin> set a \<Longrightarrow> d \<notin> set b \<Longrightarrow> d \<notin> set c \<Longrightarrow> d \<notin> set e \<Longrightarrow>
   split d (a @ [d] @ b @ [d] @ c @ [d] @ e) = [a, b, c, e]"
  by (simp add: split_append_sep split_no_sep)

section \<open>Key material round trips\<close>

lemma unserial_serial_msg: "unserial_elgamal_msg (serial_elgamal_msg (a, b)) = Inr (a, b)"
proof -
  have "split (CHR '':'') (b64encode a @ '':'' @ b64encode b) = [b64encode a, b64encode b]"
    using split_two [OF b64encode_no_colon b64encode_no_colon] by simp
  then show ?thesis
    by (simp add: unserial_elgamal_msg_def serial_elgamal_msg_def b64decode_field_def
          getitem_def b64decode_b64encode)
qed

lemma long_field_encoded:
  assumes "i < length ns" "0 \<le> ns ! i"
  shows "long_field (map (\<lambda>n. b64encode (long_to_bytes n 0)) ns) i = Inr (ns ! i)"
  using assms
  by (simp add: long_field_def b64decode_field_def getitem_def b64decode_b64encode
        bytes_to_long_long_to_bytes)

lemma unserial_serial_pubkey:
  assumes "0 \<le> p" "0 \<le> g" "0 \<le> y"
  shows "unserial_elgamal_pubkey (serial_elgamal_pubkey (p, g, y)) = Inr (p, g, y)"
proof -
  let ?e = "\<lambda>n. b64encode (long_to_bytes n 0)"
  have "split (CHR '':'') (?e p @ '':'' @ ?e g @ '':'' @ ?e y) = map ?e [p, g, y]"
    using split_three [OF b64encode_no_colon b64encode_no_colon b64encode_no_colon] by simp
  moreover have "long_field (map ?e [p, g, y]) 0 = Inr p" "long_field (map ?e [p, g, y]) 1 = Inr g"
    "long_field (map ?e [p, g, y]) 2 = Inr y"
    using assms long_field_encoded [of 0 "[p, g, y]"] long_field_encoded [of 1 "[p, g, y]"]
      long_field_encoded [of 2 "[p, g, y]"] by simp_all
  ultimately show ?thesis
    by (simp add: unserial_elgamal_pubkey_def serial_elgamal_pubkey_def del: list.map)
qed

lemma unserial_serial_privkey:
  assumes "0 \<le> a" "0 \<le> b" "0 \<le> c" "0 \<le> d"
  shows "unserial_elgamal_privkey (serial_elgamal_privkey (a, b, c, d)) = Inr (a, b, c, d)"
proof -
  let ?e = "\<lambda>n. b64encode (long_to_bytes n 0)"
  have "split (CHR '':'') (?e a @ '':'' @ ?e b @ '':'' @ ?e c @ '':'' @ ?e d) = map ?e [a, b, c, d]"
    using split_four [OF b64encode_no_colon b64encode_no_colon b64encode_no_colon
        b64encode_no_colon] by simp
  moreover have "long_field (map ?e [a, b, c, d]) 0 = Inr a"
    "long_field (map ?e [a, b, c, d]) 1 = Inr b"
    "long_field (map ?e [a, b, c, d]) 2 = Inr c"
    "long_field (map ?e [a, b, c, d]) 3 = Inr d"
    using assms long_field_encoded [of 0 "[a, b, c, d]"] long_field_encoded [of 1 "[a, b, c, d]"]
      long_field_encoded [of 2 "[a, b, c, d]"] long_field_encoded [of 3 "[a, b, c, d]"]
    by simp_all
  ultimately show ?thesis
    by (simp add: unserial_elgamal_privkey_def serial_elgamal_privkey_def del: list.map)
qed

section \<open>Field counts\<close>

lemma b64decode_error: "b64decode s = Inl e \<Longrightarrow> e = TypeError"
  by (auto simp: b64decode_def split: prod.splits if_splits)

lemma b64decode_field_error:
  "b64decode_field x i = Inl e \<Longrightarrow> e = TypeError \<or> e = IndexError"
  by (auto simp: b64decode_field_def getitem_def dest: b64decode_error split: if_splits)

lemma b64decode_field_missing: "length x \<le> i \<Longrightarrow> b64decode_field x i = Inl IndexError"
  by (simp add: b64decode_field_def getitem_def)

lemma b64decode_field_present:
  "i < length x \<Longrightarrow> b64decode_field x i = b64decode (x ! i)"
  by (simp add: b64decode_field_def getitem_def)

lemma long_field_error:
  "long_field x i = Inl e \<Longrightarrow> e = TypeError \<or> e = IndexError"
  by (auto simp: long_field_def dest: b64decode_field_error split: sum.splits)

lemma long_field_missing: "length x \<le> i \<Longrightarrow> long_field x i = Inl IndexError"
  by (simp add: long_field_def b64decode_field_missing)

lemma unserial_msg_too_few:
  assumes "length (split (CHR '':'') s) < 2"
  shows "unserial_elgamal_msg s = Inl TypeError \<or> unserial_elgamal_msg s = Inl IndexError"
proof -
  have "b64decode_field (split (CHR '':'') s) 1 = Inl IndexError"
    using assms by (intro b64decode_field_missing) simp
  then show ?thesis
    by (auto simp: unserial_elgamal_msg_def Let_def dest: b64decode_field_error split: sum.splits)
qed

lemma unserial_pubkey_too_few:
  assumes "length (split (CHR '':'') s) < 3"
  shows "unserial_elgamal_pubkey s = Inl TypeError \<or> unserial_elgamal_pubkey s = Inl IndexError"
proof -
  have "long_field (split (CHR '':'') s) 2 = Inl IndexError"
    using assms by (intro long_field_missing) simp
  then show ?thesis
    by (auto simp: unserial_elgamal_pubkey_def Let_def dest: long_field_error split: sum.splits)
qed

lemma unserial_privkey_too_few:
  assumes "length (split (CHR '':'') s) < 4"
  shows "unserial_elgamal_privkey s = Inl TypeError \<or> unserial_elgamal_privkey s = Inl IndexError"
proof -
  have "long_field (split (CHR '':'') s) 3 = Inl IndexError"
    using assms by (intro long_field_missing) simp
  then show ?thesis
    by (auto simp: unserial_elgamal_privkey_def Let_def dest: long_field_error split: sum.splits)
qed

lemma unserial_msg_extra_ignored:
  assumes "2 \<le> length (split (CHR '':'') s)"
    and "b64decode (split (CHR '':'') s ! 0) = Inr a"
    and "b64decode (split (CHR '':'') s ! 1) = Inr b"
  shows "unserial_elgamal_msg s = Inr (a, b)"
proof -
  let ?x = "split (CHR '':'') s"
  have "b64decode_field ?x 0 = Inr a" "b64decode_field ?x 1 = Inr b"
    using assms by (simp_all add: b64decode_field_present split_nonempty)
  then show ?thesis by (simp add: unserial_elgamal_msg_def Let_def)
qed

lemma unserial_pubkey_extra_ignored:
  assumes "3 \<le> length (split (CHR '':'') s)"
    and "b64decode (split (CHR '':'') s ! 0) = Inr a"
    and "b64decode (split (CHR '':'') s ! 1) = Inr b"
    and "b64decode (split (CHR '':'') s ! 2) = Inr c"
  shows "unserial_elgamal_pubkey s = Inr (bytes_to_long a, bytes_to_long b, bytes_to_long c)"
proof -
  let ?x = "split (CHR '':'') s"
  have "long_field ?x 0 = Inr (bytes_to_long a)" "long_field ?x 1 = Inr (bytes_to_long b)"
    "long_field ?x 2 = Inr (bytes_to_long c)"
    using assms by (simp_all add: long_field_def b64decode_field_present split_nonempty)
  then show ?thesis by (simp add: unserial_elgamal_pubkey_def Let_def)
qed

lemma unserial_privkey_extra_ignored:
  assumes "4 \<le> length (split (CHR '':'') s)"
    and "b64decode (split (CHR '':'') s ! 0) = Inr a"
    and "b64decode (split (CHR '':'') s ! 1) = Inr b"
    and "b64decode (split (CHR '':'') s ! 2) = Inr c"
    and "b64decode (split (CHR '':'') s ! 3) = Inr d"
  shows "unserial_elgamal_privkey s =
           Inr (bytes_to_long a, bytes_to_long b, bytes_to_long c, bytes_to_long d)"
proof -
  let ?x = "split (CHR '':'') s"
  have "long_field ?x 0 = Inr (bytes_to_long a)" "long_field ?x 1 = Inr (bytes_to_long b)"
    "long_field ?x 2 = Inr (bytes_to_long c)" "long_field ?x 3 = Inr (bytes_to_long d)"
    using assms by (simp_all add: long_field_def b64decode_field_present split_nonempty)
  then show ?thesis by (simp add: unserial_elgamal_privkey_def Let_def)
qed

section \<open>Stripping and padding\<close>

lemma rstrip_replicate: "rstrip z (s @ replicate k z) = rstrip z s"
proof -
  have "dropWhile (\<lambda>c. c = z) (replicate k z @ rev s) = dropWhile (\<lambda>c. c = z) (rev s)"
    by (induction k) simp_all
  then show ?thesis by (simp add: rstrip_def)
qed

lemma rstrip_snoc_other: "c \<noteq> z \<Longrightarrow> rstrip z (s @ [c]) = s @ [c]"
  by (simp add: rstrip_def)

lemma rstrip_Nil [simp]: "rstrip z [] = []"
  by (simp add: rstrip_def)

lemma rstrip_last: "s \<noteq> [] \<Longrightarrow> last s \<noteq> z \<Longrightarrow> rstrip z s = s"
  using rstrip_snoc_other [of "last s" z "butlast s"] by simp

lemma length_padded: "0 < b \<Longrightarrow> (n + (b - n mod b) mod b) mod b = (0::nat)"
proof -
  assume b: "0 < b"
  show ?thesis
  proof (cases "n mod b = 0")
    case True
    then show ?thesis by simp
  next
    case False
    then have lt: "b - n mod b < b" using b by simp
    have le: "n mod b \<le> b" using b by (simp add: less_imp_le)
    have "(n + (b - n mod b)) mod b = (n mod b + (b - n mod b)) mod b"
      by (simp add: mod_add_left_eq)
    also have "\<dots> = b mod b" using le by simp
    finally show ?thesis using lt by simp
  qed
qed

section \<open>The ciphers\<close>

lemma cipher_correct_shift_cipher: "cipher_correct (shift_cipher bs lens)"
proof -
  have "char_of ((of_char (char_of ((of_char c :: int) + of_char (hd k)) :: char) :: int)
                  - of_char (hd k)) = c" for c :: char and k :: string
  proof -
    have "((of_char c + of_char (hd k)) mod 256 - of_char (hd k)) mod 256 = (of_char c :: int) mod 256"
      by (simp add: mod_diff_left_eq)
    then show ?thesis
      by (simp add: char_of_eq_iff take_bit_eq_mod)
  qed
  then show ?thesis
    by (simp add: cipher_correct_def shift_cipher_def o_def)
qed

section \<open>Encrypting and decrypting\<close>

lemma decrypt_encrypt_secret_eq:
  assumes "cipher_correct AES" "block_size AES = 16" "key_valid AES (randfunc 32)"
  shows "decrypt_encrypt_secret AES randfunc secret =
           (case chksum (rstrip (CHR 0x00) (wrapsum secret)) of
              Inr sec2 \<Rightarrow> Inr (sec2, [])
            | Inl e \<Rightarrow> Inr (rstrip (CHR 0x00) (wrapsum secret), old_algorithm_note))"
proof -
  let ?k = "randfunc 32"
  let ?w = "wrapsum secret"
  let ?p = "?w @ replicate ((16 - length ?w mod 16) mod 16) (CHR 0x00)"
  have len: "length ?p mod 16 = 0"
    using length_padded [of 16 "length ?w"] by simp
  from assms len have cc: "length (ecb_encrypt AES ?k ?p) = length ?p"
    "ecb_decrypt AES ?k (ecb_encrypt AES ?k ?p) = ?p"
    unfolding cipher_correct_def by simp_all
  have enc: "encrypt_secret AES randfunc secret =
               Inr (b64encode ?k, b64encode (ecb_encrypt AES ?k ?p))"
    using assms(2,3) len by (simp add: encrypt_secret_def Let_def cipher_new_def cipher_encrypt_def)
  have dec: "decrypt_secret AES (b64encode ?k) (b64encode (ecb_encrypt AES ?k ?p)) =
               (case chksum (rstrip (CHR 0x00) ?p) of
                  Inr sec2 \<Rightarrow> Inr (sec2, [])
                | Inl e \<Rightarrow> Inr (rstrip (CHR 0x00) ?p, old_algorithm_note))"
    using assms(2,3) len cc
    by (simp add: decrypt_secret_def Let_def b64decode_b64encode cipher_new_def cipher_decrypt_def)
  show ?thesis
    unfolding decrypt_encrypt_secret_def enc
    by (simp add: dec rstrip_replicate cong: sum.case_cong)
qed

lemma decrypt_encrypt_privkey_eq:
  assumes "cipher_correct Blowfish" "block_size Blowfish = 8" "key_valid Blowfish pw"
  shows "decrypt_encrypt_privkey Blowfish something pw =
           chksum (rstrip (CHR 0x00) (wrapsum something))"
proof -
  let ?w = "wrapsum something"
  let ?p = "?w @ replicate ((8 - length ?w mod 8) mod 8) (CHR 0x00)"
  have len: "length ?p mod 8 = 0"
    using length_padded [of 8 "length ?w"] by simp
  from assms len have cc: "length (ecb_encrypt Blowfish pw ?p) = length ?p"
    "ecb_decrypt Blowfish pw (ecb_encrypt Blowfish pw ?p) = ?p"
    unfolding cipher_correct_def by simp_all
  have enc: "encrypt_privkey Blowfish something pw = Inr (b64encode (ecb_encrypt Blowfish pw ?p))"
    using assms(2,3) len by (simp add: encrypt_privkey_def Let_def cipher_new_def cipher_encrypt_def)
  have dec: "decrypt_privkey Blowfish (b64encode (ecb_encrypt Blowfish pw ?p)) pw =
               chksum (rstrip (CHR 0x00) ?p)"
    using assms(2,3) len cc
    by (simp add: decrypt_privkey_def b64decode_b64encode cipher_new_def cipher_decrypt_def)
  show ?thesis
    unfolding decrypt_encrypt_privkey_def enc by (simp add: dec rstrip_replicate)
qed

lemma last_be_bytes: "0 < n \<Longrightarrow> last (be_bytes n) = char_of (n mod 256)"
  by (subst be_bytes.simps) simp

lemma last_long_to_bytes: "0 < n \<Longrightarrow> last (long_to_bytes n b) = char_of (n mod 256)"
  by (simp add: long_to_bytes_def Let_def be_bytes_nonempty last_be_bytes)

lemma rstrip_wrapsum:
  assumes "(crc32 p AND 0xffffffff) mod 256 \<noteq> 0"
  shows "rstrip (CHR 0x00) (wrapsum p) = wrapsum p"
proof -
  let ?c = "crc32 p AND 0xffffffff"
  define c where "c = ?c"
  have "0 \<le> c" unfolding c_def using crc_unsigned_range [of p] by blast
  moreover have "c \<noteq> 0" unfolding c_def using assms by auto
  ultimately have "0 < c" by linarith
  then have pos: "0 < ?c" unfolding c_def .
  have ne: "long_to_bytes ?c 4 \<noteq> []" using length_crc_bytes [of p] by auto
  have "char_of (?c mod 256) \<noteq> CHR 0x00"
    using assms by (simp add: char_of_eq_iff take_bit_eq_mod)
  then have "last (wrapsum p) \<noteq> CHR 0x00"
    using ne by (simp add: wrapsum_def last_long_to_bytes [OF pos])
  moreover have "wrapsum p \<noteq> []" using ne by (simp add: wrapsum_def)
  ultimately show ?thesis by (intro rstrip_last)
qed

lemma decrypt_encrypt_secret_crc_tail:
  assumes "cipher_correct AES" "block_size AES = 16" "key_valid AES (randfunc 32)"
    and "(crc32 secret AND 0xffffffff) mod 256 \<noteq> 0"
  shows "decrypt_encrypt_secret AES randfunc secret = Inr (secret, [])"
  using assms(1-3)
  by (simp add: decrypt_encrypt_secret_eq [of AES randfunc secret] rstrip_wrapsum [OF assms(4)]
        chksum_wrapsum)

lemma decrypt_encrypt_privkey_crc_tail:
  assumes "cipher_correct Blowfish" "block_size Blowfish = 8" "key_valid Blowfish pw"
    and "(crc32 something AND 0xffffffff) mod 256 \<noteq> 0"
  shows "decrypt_encrypt_privkey Blowfish something pw = Inr something"
  using assms(1-3)
  by (simp add: decrypt_encrypt_privkey_eq [of Blowfish pw something] rstrip_wrapsum [OF assms(4)]
        chksum_wrapsum)

lemma rstrip_wrapsum_Nil: "rstrip (CHR 0x00) (wrapsum []) = []"
  by code_simp

lemma decrypt_encrypt_secret_Nil:
  assumes "cipher_correct AES" "block_size AES = 16" "key_valid AES (randfunc 32)"
  shows "decrypt_encrypt_secret AES randfunc [] = Inr ([], [])"
proof -
  note eq = decrypt_encrypt_secret_eq [of AES randfunc "[]", OF assms]
  have "chksum [] = Inr []" by (simp add: chksum_def crc32_Nil)
  then show ?thesis unfolding eq rstrip_wrapsum_Nil by simp
qed

lemma decrypt_encrypt_privkey_Nil:
  assumes "cipher_correct Blowfish" "block_size Blowfish = 8" "key_valid Blowfish pw"
  shows "decrypt_encrypt_privkey Blowfish [] pw = Inr []"
proof -
  note eq = decrypt_encrypt_privkey_eq [of Blowfish pw "[]", OF assms]
  have "chksum [] = Inr []" by (simp add: chksum_def crc32_Nil)
  then show ?thesis unfolding eq rstrip_wrapsum_Nil by simp
qed

lemma wrapsum_gw: "wrapsum ''gw'' = ''gw'' @ [CHR 0xA5, CHR 0x04, CHR 0x0B, CHR 0x00]"
  by code_simp

lemma rstrip_wrapsum_gw:
  "rstrip (CHR 0x00) (wrapsum ''gw'') = ''gw'' @ [CHR 0xA5, CHR 0x04, CHR 0x0B]"
  unfolding wrapsum_gw by code_simp

lemma chksum_stripped_gw: "chksum (''gw'' @ [CHR 0xA5, CHR 0x04, CHR 0x0B]) = Inl DecryptError"
  by code_simp

lemma decrypt_secret_eq:
  assumes "b64decode seckey = Inr key" "key_valid AES key" "b64decode ciphertext = Inr ct"
    and "length ct mod block_size AES = 0"
  shows "decrypt_secret AES seckey ciphertext =
           (case chksum (rstrip (CHR 0x00) (ecb_decrypt AES key ct)) of
              Inr sec2 \<Rightarrow> Inr (sec2, [])
            | Inl e \<Rightarrow> Inr (rstrip (CHR 0x00) (ecb_decrypt AES key ct), old_algorithm_note))"
  using assms by (simp add: decrypt_secret_def cipher_new_def cipher_decrypt_def Let_def)

lemma decrypt_secret_error:
  "decrypt_secret AES seckey ciphertext = Inl e \<Longrightarrow> e = TypeError \<or> e = ValueError"
  by (auto simp: decrypt_secret_def cipher_new_def cipher_decrypt_def Let_def
      dest: b64decode_error split: sum.splits if_splits)

lemma decrypt_privkey_eq:
  assumes "key_valid Blowfish pw" "b64decode something = Inr raw"
    and "length raw mod block_size Blowfish = 0"
  shows "decrypt_privkey Blowfish something pw =
           chksum (rstrip (CHR 0x00) (ecb_decrypt Blowfish pw raw))"
  using assms by (simp add: decrypt_privkey_def cipher_new_def cipher_decrypt_def)

lemma decrypt_privkey_Inr:
  assumes "decrypt_privkey Blowfish something pw = Inr v"
  shows "\<exists>raw. key_valid Blowfish pw \<and> b64decode something = Inr raw \<and>
           length raw mod block_size Blowfish = 0 \<and>
           chksum (rstrip (CHR 0x00) (ecb_decrypt Blowfish pw raw)) = Inr v"
  using assms
  by (auto simp: decrypt_privkey_def cipher_new_def cipher_decrypt_def
      split: sum.splits if_splits)

lemma chksum_Inr:
  "chksum s = Inr v \<longleftrightarrow>
     bytes_to_long (drop (length s - 4) s) = (crc32 (take (length s - 4) s) AND 0xffffffff) \<and>
     v = take (length s - 4) s"
  by (auto simp: chksum_def Let_def)

lemma chksum_Inl:
  "chksum s = Inl e \<longleftrightarrow>
     bytes_to_long (drop (length s - 4) s) \<noteq> (crc32 (take (length s - 4) s) AND 0xffffffff) \<and>
     e = DecryptError"
  by (auto simp: chksum_def Let_def)

section \<open>The checksum frame\<close>

text \<open>
  C8: for every byte string \<open>p\<close>, \<open>chksum (wrapsum p)\<close> returns exactly \<open>p\<close>;
  \<open>wrapsum\<close> appends the unsigned CRC-32 of \<open>p\<close> as exactly four bytes, as a
  total function of \<open>p\<close> alone.
\<close>

theorem chksum_wrapsum_roundtrip:
  "chksum (wrapsum p) = Inr p \<and>
   wrapsum p = p @ long_to_bytes (crc32 p AND 0xffffffff) 4 \<and>
   length (long_to_bytes (crc32 p AND 0xffffffff) 4) = 4 \<and>
   bytes_to_long (long_to_bytes (crc32 p AND 0xffffffff) 4) = crc32 p AND 0xffffffff \<and>
   0 \<le> crc32 p AND 0xffffffff \<and> crc32 p AND 0xffffffff < 2 ^ 32"
proof -
  have "bytes_to_long (long_to_bytes (crc32 p AND 0xffffffff) 4) = crc32 p AND 0xffffffff"
    using crc_unsigned_range [of p] by (intro bytes_to_long_long_to_bytes) simp
  then show ?thesis
    using chksum_wrapsum [of p] length_crc_bytes [of p] crc_unsigned_range [of p]
    by (simp add: wrapsum_def)
qed

theorem chksum_wrapsum_roundtrip_witness:
  "chksum (wrapsum ''hunter2'') = Inr ''hunter2'' \<and>
   wrapsum ''hunter2'' = ''hunter2'' @ [CHR 0x27, CHR 0x47, CHR 0xFC, CHR 0x56]"
proof -
  note t = chksum_wrapsum_roundtrip [of "''hunter2''"]
  have lit: "long_to_bytes (crc32 ''hunter2'' AND 0xffffffff) 4
               = [CHR 0x27, CHR 0x47, CHR 0xFC, CHR 0x56]"
    by code_simp
  from t have "chksum (wrapsum ''hunter2'') = Inr ''hunter2''"
    by (rule conjunct1)
  moreover from t have "wrapsum ''hunter2'' = ''hunter2'' @ [CHR 0x27, CHR 0x47, CHR 0xFC, CHR 0x56]"
    unfolding lit by blast
  ultimately show ?thesis by (rule conjI)
qed

text \<open>
  C7 as stated (every input shorter than four bytes makes \<open>chksum\<close> fail) does not
  hold: on the empty string the stored and the recomputed checksum are both 0 and
  \<open>chksum\<close> returns the empty string.
\<close>

theorem chksum_short_counterexample:
  "chksum [] = Inr [] \<and> chksum [CHR 0x00, CHR 0x00] = Inr []"
  by (simp add: chksum_def crc32_Nil bytes_to_long_def)

text \<open>
  C7 amended: on an input shorter than four bytes \<open>chksum\<close> raises \<open>DecryptError\<close>
  exactly when some byte of the input is not zero; an input of zero bytes only
  (the empty string among them) returns the empty string.
\<close>

theorem chksum_short_input:
  "length s < 4 \<Longrightarrow>
   chksum s = (if bytes_to_long s = 0 then Inr [] else Inl DecryptError) \<and>
   (bytes_to_long s = 0 \<longleftrightarrow> (\<forall>c \<in> set s. c = CHR 0x00))"
  using chksum_short [of s] by (simp add: bytes_to_long_zero_iff)

theorem chksum_short_input_witness:
  "length ''abc'' < 4 \<and> chksum ''abc'' = Inl DecryptError \<and> bytes_to_long ''abc'' \<noteq> 0"
  using chksum_short_input [of "''abc''"] by (simp add: bytes_to_long_def)


section \<open>Key material\<close>

text \<open>
  C5: decoding the encoding returns the tuple, field for field: for every pair of
  byte strings, every triple of non-negative integers and every quadruple of
  non-negative integers.
\<close>

theorem key_material_roundtrip:
  "unserial_elgamal_msg (serial_elgamal_msg (m1, m2)) = Inr (m1, m2) \<and>
   (0 \<le> p \<and> 0 \<le> g \<and> 0 \<le> y \<longrightarrow>
      unserial_elgamal_pubkey (serial_elgamal_pubkey (p, g, y)) = Inr (p, g, y)) \<and>
   (0 \<le> f0 \<and> 0 \<le> f1 \<and> 0 \<le> f2 \<and> 0 \<le> f3 \<longrightarrow>
      unserial_elgamal_privkey (serial_elgamal_privkey (f0, f1, f2, f3)) = Inr (f0, f1, f2, f3))"
  using unserial_serial_msg [of m1 m2] unserial_serial_pubkey [of p g y]
    unserial_serial_privkey [of f0 f1 f2 f3]
  by blast

theorem key_material_roundtrip_witness:
  "unserial_elgamal_msg (serial_elgamal_msg (''c1'', [CHR 0x00, CHR '':'', CHR 0xFF]))
     = Inr (''c1'', [CHR 0x00, CHR '':'', CHR 0xFF]) \<and>
   unserial_elgamal_pubkey (serial_elgamal_pubkey (11, 2, 9)) = Inr (11, 2, 9) \<and>
   unserial_elgamal_privkey (serial_elgamal_privkey (0, 255, 256, 18446744073709551616))
     = Inr (0, 255, 256, 18446744073709551616)"
  using key_material_roundtrip [of "''c1''" "[CHR 0x00, CHR '':'', CHR 0xFF]" 11 2 9
      0 255 256 18446744073709551616]
  by simp

text \<open>
  C6 as stated (a field count that differs, fewer or more, makes decoding fail)
  does not hold for more fields: a message string of three fields decodes to the
  pair of its first two.
\<close>

theorem unserial_extra_field_counterexample:
  "length (split (CHR '':'') ''QQ==:Qg==:Qw=='') = 3 \<and>
   unserial_elgamal_msg ''QQ==:Qg==:Qw=='' = Inr (''A'', ''B'')"
  by code_simp

text \<open>
  C6 amended: with fewer colon-separated fields than expected (2 for a message
  pair, 3 for a public key, 4 for a private key) decoding raises, a \<open>TypeError\<close>
  of the base64 decoder or the \<open>IndexError\<close> of the missing field; with at least
  the expected number, fields beyond it are never read, and the result is the
  tuple decoded from the first fields whenever each of them decodes.
\<close>

theorem unserial_field_count:
  "(length (split (CHR '':'') s) < 2 \<longrightarrow>
      unserial_elgamal_msg s = Inl TypeError \<or> unserial_elgamal_msg s = Inl IndexError) \<and>
   (length (split (CHR '':'') s) < 3 \<longrightarrow>
      unserial_elgamal_pubkey s = Inl TypeError \<or> unserial_elgamal_pubkey s = Inl IndexError) \<and>
   (length (split (CHR '':'') s) < 4 \<longrightarrow>
      unserial_elgamal_privkey s = Inl TypeError \<or> unserial_elgamal_privkey s = Inl IndexError) \<and>
   (2 \<le> length (split (CHR '':'') s) \<and>
    b64decode (split (CHR '':'') s ! 0) = Inr a \<and>
    b64decode (split (CHR '':'') s ! 1) = Inr b \<longrightarrow>
      unserial_elgamal_msg s = Inr (a, b)) \<and>
   (3 \<le> length (split (CHR '':'') s) \<and>
    b64decode (split (CHR '':'') s ! 0) = Inr a \<and>
    b64decode (split (CHR '':'') s ! 1) = Inr b \<and>
    b64decode (split (CHR '':'') s ! 2) = Inr c \<longrightarrow>
      unserial_elgamal_pubkey s = Inr (bytes_to_long a, bytes_to_long b, bytes_to_long c)) \<and>
   (4 \<le> length (split (CHR '':'') s) \<and>
    b64decode (split (CHR '':'') s ! 0) = Inr a \<and>
    b64decode (split (CHR '':'') s ! 1) = Inr b \<and>
    b64decode (split (CHR '':'') s ! 2) = Inr c \<and>
    b64decode (split (CHR '':'') s ! 3) = Inr d \<longrightarrow>
      unserial_elgamal_privkey s =
        Inr (bytes_to_long a, bytes_to_long b, bytes_to_long c, bytes_to_long d))"
  using unserial_msg_too_few [of s] unserial_pubkey_too_few [of s] unserial_privkey_too_few [of s]
    unserial_msg_extra_ignored [of s a b] unserial_pubkey_extra_ignored [of s a b c]
    unserial_privkey_extra_ignored [of s a b c d]
  by blast

theorem unserial_field_count_witness:
  "length (split (CHR '':'') ''Cw==:Ag=='') < 3 \<and>
   unserial_elgamal_pubkey ''Cw==:Ag=='' = Inl IndexError \<and>
   2 \<le> length (split (CHR '':'') ''Cw==:Ag=='') \<and>
   unserial_elgamal_msg ''Cw==:Ag=='' = Inr ([CHR 0x0B], [CHR 0x02]) \<and>
   4 \<le> length (split (CHR '':'') ''Cw==:Ag==:CQ==:AQ==:AAAA'') \<and>
   unserial_elgamal_privkey ''Cw==:Ag==:CQ==:AQ==:AAAA'' = Inr (11, 2, 9, 1)"
proof -
  have l1: "length (split (CHR '':'') ''Cw==:Ag=='') = 2" by code_simp
  have l2: "length (split (CHR '':'') ''Cw==:Ag==:CQ==:AQ==:AAAA'') = 5" by code_simp
  have f: "b64decode (split (CHR '':'') ''Cw==:Ag=='' ! 0) = Inr [CHR 0x0B]"
    "b64decode (split (CHR '':'') ''Cw==:Ag=='' ! 1) = Inr [CHR 0x02]"
    by code_simp+
  have g: "b64decode (split (CHR '':'') ''Cw==:Ag==:CQ==:AQ==:AAAA'' ! 0) = Inr [CHR 0x0B]"
    "b64decode (split (CHR '':'') ''Cw==:Ag==:CQ==:AQ==:AAAA'' ! 1) = Inr [CHR 0x02]"
    "b64decode (split (CHR '':'') ''Cw==:Ag==:CQ==:AQ==:AAAA'' ! 2) = Inr [CHR 0x09]"
    "b64decode (split (CHR '':'') ''Cw==:Ag==:CQ==:AQ==:AAAA'' ! 3) = Inr [CHR 0x01]"
    by code_simp+
  have p: "unserial_elgamal_pubkey ''Cw==:Ag=='' \<noteq> Inl TypeError" by code_simp
  have "unserial_elgamal_pubkey ''Cw==:Ag=='' = Inl IndexError"
    using unserial_field_count [of "''Cw==:Ag==''"] l1 p by simp
  moreover have "unserial_elgamal_msg ''Cw==:Ag=='' = Inr ([CHR 0x0B], [CHR 0x02])"
    using unserial_field_count [of "''Cw==:Ag==''" "[CHR 0x0B]" "[CHR 0x02]"] l1 f by simp
  moreover have "unserial_elgamal_privkey ''Cw==:Ag==:CQ==:AQ==:AAAA'' = Inr (11, 2, 9, 1)"
    using unserial_field_count [of "''Cw==:Ag==:CQ==:AQ==:AAAA''"
        "[CHR 0x0B]" "[CHR 0x02]" "[CHR 0x09]" "[CHR 0x01]"] l2 g
    by (simp add: bytes_to_long_single)
  ultimately show ?thesis using l1 l2 by simp
qed

text \<open>
  C10: the text format is not canonical. The public-key string \<open>AAE=:Ag==:CQ==\<close>
  is well formed (its first field is the base64 of the two bytes 00 01); it decodes
  to \<open>(1, 2, 9)\<close>, whose encoding is the different string \<open>AQ==:Ag==:CQ==\<close>,
  because the leading zero byte is lost in the integer.
\<close>

theorem pubkey_format_not_canonical:
  "b64decode ''AAE='' = Inr [CHR 0x00, CHR 0x01] \<and>
   b64encode [CHR 0x00, CHR 0x01] = ''AAE='' \<and>
   unserial_elgamal_pubkey ''AAE=:Ag==:CQ=='' = Inr (1, 2, 9) \<and>
   serial_elgamal_pubkey (1, 2, 9) = ''AQ==:Ag==:CQ=='' \<and>
   serial_elgamal_pubkey (1, 2, 9) \<noteq> ''AAE=:Ag==:CQ=='' \<and>
   (\<exists>y t. unserial_elgamal_pubkey y = Inr t \<and> serial_elgamal_pubkey t \<noteq> y)"
proof -
  have a: "b64decode ''AAE='' = Inr [CHR 0x00, CHR 0x01]" by code_simp
  have b: "b64encode [CHR 0x00, CHR 0x01] = ''AAE=''" by code_simp
  have c: "unserial_elgamal_pubkey ''AAE=:Ag==:CQ=='' = Inr (1, 2, 9)" by code_simp
  have d: "serial_elgamal_pubkey (1, 2, 9) = ''AQ==:Ag==:CQ==''" by code_simp
  have e: "serial_elgamal_pubkey (1, 2, 9) \<noteq> ''AAE=:Ag==:CQ==''" unfolding d by simp
  from c e have "\<exists>y t. unserial_elgamal_pubkey y = Inr t \<and> serial_elgamal_pubkey t \<noteq> y"
    by blast
  with a b c d e show ?thesis by blast
qed

section \<open>The secret cipher\<close>

text \<open>
  C1 (every secret comes back from \<open>decrypt_secret\<close> of its \<open>encrypt_secret\<close>,
  with no fallback) fails on the code for the secret \<open>gw\<close>, under every correct
  cipher and every key: its CRC-32 is \<open>0xA5040B00\<close>, the last byte of the frame is
  zero and is stripped with the padding, the checksum of the shortened frame does
  not validate, and the fallback returns the secret with three checksum bytes
  appended.
\<close>

theorem decrypt_encrypt_secret_gw:
  assumes "cipher_correct AES" "block_size AES = 16" "key_valid AES (randfunc 32)"
  shows "decrypt_encrypt_secret AES randfunc ''gw'' =
           Inr (''gw'' @ [CHR 0xA5, CHR 0x04, CHR 0x0B], old_algorithm_note) \<and>
         legacy (''gw'' @ [CHR 0xA5, CHR 0x04, CHR 0x0B], old_algorithm_note) \<and>
         decrypt_encrypt_secret AES randfunc ''gw'' \<noteq> Inr (''gw'', [])"
proof -
  note eq = decrypt_encrypt_secret_eq [of AES randfunc "''gw''", OF assms]
  have "decrypt_encrypt_secret AES randfunc ''gw'' =
          Inr (''gw'' @ [CHR 0xA5, CHR 0x04, CHR 0x0B], old_algorithm_note)"
    unfolding eq rstrip_wrapsum_gw chksum_stripped_gw by (simp only: sum.case)
  then show ?thesis by (simp add: legacy_def old_algorithm_note_def)
qed

theorem decrypt_encrypt_secret_gw_witness:
  "cipher_correct (shift_cipher 16 [16, 24, 32]) \<and>
   block_size (shift_cipher 16 [16, 24, 32]) = 16 \<and>
   key_valid (shift_cipher 16 [16, 24, 32]) (replicate 32 (CHR ''k'')) \<and>
   encrypt_secret (shift_cipher 16 [16, 24, 32]) (\<lambda>n. replicate n (CHR ''k'')) ''gw'' =
     Inr (''a2tra2tra2tra2tra2tra2tra2tra2tra2tra2tra2s='', ''0uIQb3Zra2tra2tra2traw=='') \<and>
   decrypt_secret (shift_cipher 16 [16, 24, 32])
       ''a2tra2tra2tra2tra2tra2tra2tra2tra2tra2tra2s='' ''0uIQb3Zra2tra2tra2traw=='' =
     Inr (''gw'' @ [CHR 0xA5, CHR 0x04, CHR 0x0B], old_algorithm_note)"
proof -
  let ?AES = "shift_cipher 16 [16, 24, 32]"
  let ?rf = "\<lambda>n. replicate n (CHR ''k'')"
  have c: "cipher_correct ?AES" by (rule cipher_correct_shift_cipher)
  have b: "block_size ?AES = 16" by (simp add: shift_cipher_def)
  have k: "key_valid ?AES (?rf 32)" by (simp add: shift_cipher_def)
  have e: "encrypt_secret ?AES ?rf ''gw'' =
             Inr (''a2tra2tra2tra2tra2tra2tra2tra2tra2tra2tra2s='', ''0uIQb3Zra2tra2tra2traw=='')"
    by code_simp
  have "decrypt_encrypt_secret ?AES ?rf ''gw'' =
          Inr (''gw'' @ [CHR 0xA5, CHR 0x04, CHR 0x0B], old_algorithm_note)"
    using decrypt_encrypt_secret_gw [of ?AES ?rf, OF c b k] by blast
  then have d: "decrypt_secret ?AES
       ''a2tra2tra2tra2tra2tra2tra2tra2tra2tra2tra2s='' ''0uIQb3Zra2tra2tra2traw=='' =
     Inr (''gw'' @ [CHR 0xA5, CHR 0x04, CHR 0x0B], old_algorithm_note)"
    unfolding decrypt_encrypt_secret_def e by simp
  from c b k e d show ?thesis by simp
qed

text \<open>
  C3: when the checksum of the zero-stripped decrypted bytes does not validate,
  \<open>decrypt_secret\<close> does not raise: it returns those bytes as they are and
  prints the note of the old format (the legacy flag).
\<close>

theorem decrypt_secret_checksum_failure:
  assumes "b64decode seckey = Inr key" "key_valid AES key" "b64decode ciphertext = Inr ct"
    and "length ct mod block_size AES = 0"
    and "chksum (rstrip (CHR 0x00) (ecb_decrypt AES key ct)) = Inl e"
  shows "decrypt_secret AES seckey ciphertext =
           Inr (rstrip (CHR 0x00) (ecb_decrypt AES key ct), old_algorithm_note) \<and>
         legacy (rstrip (CHR 0x00) (ecb_decrypt AES key ct), old_algorithm_note)"
  using assms(5)
  by (simp add: decrypt_secret_eq [OF assms(1-4)] legacy_def old_algorithm_note_def)

theorem decrypt_secret_checksum_failure_witness:
  "b64decode ''a2tra2tra2tra2tra2tra2tra2tra2tra2tra2tra2s='' = Inr (replicate 32 (CHR ''k'')) \<and>
   key_valid (shift_cipher 16 [16, 24, 32]) (replicate 32 (CHR ''k'')) \<and>
   b64decode ''2tfPmN7Qzt3Q32tra2traw=='' =
     Inr (ecb_encrypt (shift_cipher 16 [16, 24, 32]) (replicate 32 (CHR ''k''))
            (''old-secret'' @ replicate 6 (CHR 0x00))) \<and>
   chksum ''old-secret'' = Inl DecryptError \<and>
   decrypt_secret (shift_cipher 16 [16, 24, 32])
       ''a2tra2tra2tra2tra2tra2tra2tra2tra2tra2tra2s='' ''2tfPmN7Qzt3Q32tra2traw=='' =
     Inr (''old-secret'', old_algorithm_note)"
proof -
  let ?AES = "shift_cipher 16 [16, 24, 32]"
  let ?key = "replicate 32 (CHR ''k'')"
  let ?ct = "ecb_encrypt ?AES ?key (''old-secret'' @ replicate 6 (CHR 0x00))"
  have "b64encode ?key = ''a2tra2tra2tra2tra2tra2tra2tra2tra2tra2tra2s=''" by code_simp
  then have k64: "b64decode ''a2tra2tra2tra2tra2tra2tra2tra2tra2tra2tra2s='' = Inr ?key"
    using b64decode_b64encode [of ?key] by simp
  have kv: "key_valid ?AES ?key" by (simp add: shift_cipher_def)
  have "b64encode ?ct = ''2tfPmN7Qzt3Q32tra2traw==''" by code_simp
  then have c64: "b64decode ''2tfPmN7Qzt3Q32tra2traw=='' = Inr ?ct"
    using b64decode_b64encode [of ?ct] by simp
  have len: "length ?ct mod block_size ?AES = 0" by (simp add: shift_cipher_def)
  have pt: "rstrip (CHR 0x00) (ecb_decrypt ?AES ?key ?ct) = ''old-secret''" by code_simp
  have ck: "chksum ''old-secret'' = Inl DecryptError" by code_simp
  have "decrypt_secret ?AES ''a2tra2tra2tra2tra2tra2tra2tra2tra2tra2tra2s=''
          ''2tfPmN7Qzt3Q32tra2traw=='' = Inr (''old-secret'', old_algorithm_note)"
    using decrypt_secret_checksum_failure [OF k64 kv c64 len, of DecryptError] ck
    unfolding pt by blast
  with k64 kv c64 ck show ?thesis by blast
qed

text \<open>
  C9: \<open>decrypt_secret\<close> never raises \<open>DecryptError\<close>, whatever its input; on a
  well-formed pair (both strings decode, the cipher accepts the key, the ciphertext
  is a positive multiple of 16 bytes) it returns: the payload when the checksum
  validates, the zero-stripped decrypted bytes when it does not.
\<close>

theorem decrypt_secret_no_integrity_error:
  "decrypt_secret AES seckey ciphertext \<noteq> Inl DecryptError \<and>
   (b64decode seckey = Inr key \<and> key_valid AES key \<and> b64decode ciphertext = Inr ct \<and>
    block_size AES = 16 \<and> 0 < length ct \<and> length ct mod 16 = 0 \<longrightarrow>
      (\<exists>r. decrypt_secret AES seckey ciphertext = Inr r) \<and>
      decrypt_secret AES seckey ciphertext =
        (case chksum (rstrip (CHR 0x00) (ecb_decrypt AES key ct)) of
           Inr sec2 \<Rightarrow> Inr (sec2, [])
         | Inl e \<Rightarrow> Inr (rstrip (CHR 0x00) (ecb_decrypt AES key ct), old_algorithm_note)))"
proof (intro conjI impI)
  show "decrypt_secret AES seckey ciphertext \<noteq> Inl DecryptError"
    using decrypt_secret_error [of AES seckey ciphertext DecryptError] by auto
next
  assume h: "b64decode seckey = Inr key \<and> key_valid AES key \<and> b64decode ciphertext = Inr ct \<and>
    block_size AES = 16 \<and> 0 < length ct \<and> length ct mod 16 = 0"
  then have eq: "decrypt_secret AES seckey ciphertext =
        (case chksum (rstrip (CHR 0x00) (ecb_decrypt AES key ct)) of
           Inr sec2 \<Rightarrow> Inr (sec2, [])
         | Inl e \<Rightarrow> Inr (rstrip (CHR 0x00) (ecb_decrypt AES key ct), old_algorithm_note))"
    by (intro decrypt_secret_eq) simp_all
  show "decrypt_secret AES seckey ciphertext =
        (case chksum (rstrip (CHR 0x00) (ecb_decrypt AES key ct)) of
           Inr sec2 \<Rightarrow> Inr (sec2, [])
         | Inl e \<Rightarrow> Inr (rstrip (CHR 0x00) (ecb_decrypt AES key ct), old_algorithm_note))"
    by (rule eq)
  show "\<exists>r. decrypt_secret AES seckey ciphertext = Inr r"
    unfolding eq by (cases "chksum (rstrip (CHR 0x00) (ecb_decrypt AES key ct))") simp_all
qed

theorem decrypt_secret_no_integrity_error_witness:
  "b64decode ''a2tra2tra2tra2tra2tra2tra2tra2tra2tra2tra2s='' = Inr (replicate 32 (CHR ''k'')) \<and>
   key_valid (shift_cipher 16 [16, 24, 32]) (replicate 32 (CHR ''k'')) \<and>
   b64decode ''0+DZ39DdnZKyZ8Fra2traw=='' =
     Inr (ecb_encrypt (shift_cipher 16 [16, 24, 32]) (replicate 32 (CHR ''k''))
            (wrapsum ''hunter2'' @ replicate 5 (CHR 0x00))) \<and>
   decrypt_secret (shift_cipher 16 [16, 24, 32])
       ''a2tra2tra2tra2tra2tra2tra2tra2tra2tra2tra2s='' ''0+DZ39DdnZKyZ8Fra2traw=='' =
     Inr (''hunter2'', []) \<and>
   decrypt_secret (shift_cipher 16 [16, 24, 32])
       ''a2tra2tra2tra2tra2tra2tra2tra2tra2tra2tra2s='' ''0+DZ39DdnZKyZ8Fra2traw==''
     \<noteq> Inl DecryptError"
proof -
  let ?AES = "shift_cipher 16 [16, 24, 32]"
  let ?key = "replicate 32 (CHR ''k'')"
  let ?ct = "ecb_encrypt ?AES ?key (wrapsum ''hunter2'' @ replicate 5 (CHR 0x00))"
  have "b64encode ?key = ''a2tra2tra2tra2tra2tra2tra2tra2tra2tra2tra2s=''" by code_simp
  then have k64: "b64decode ''a2tra2tra2tra2tra2tra2tra2tra2tra2tra2tra2s='' = Inr ?key"
    using b64decode_b64encode [of ?key] by simp
  have kv: "key_valid ?AES ?key" by (simp add: shift_cipher_def)
  have "b64encode ?ct = ''0+DZ39DdnZKyZ8Fra2traw==''" by code_simp
  then have c64: "b64decode ''0+DZ39DdnZKyZ8Fra2traw=='' = Inr ?ct"
    using b64decode_b64encode [of ?ct] by simp
  have bs: "block_size ?AES = 16" by (simp add: shift_cipher_def)
  have len: "0 < length ?ct \<and> length ?ct mod 16 = 0" by code_simp
  have pt: "chksum (rstrip (CHR 0x00) (ecb_decrypt ?AES ?key ?ct)) = Inr ''hunter2''" by code_simp
  note t = decrypt_secret_no_integrity_error [of ?AES
        "''a2tra2tra2tra2tra2tra2tra2tra2tra2tra2tra2s=''" "''0+DZ39DdnZKyZ8Fra2traw==''" ?key ?ct]
  have "decrypt_secret ?AES ''a2tra2tra2tra2tra2tra2tra2tra2tra2tra2tra2s=''
          ''0+DZ39DdnZKyZ8Fra2traw=='' = Inr (''hunter2'', [])"
    using t k64 kv c64 bs len unfolding pt by simp
  moreover have "decrypt_secret ?AES ''a2tra2tra2tra2tra2tra2tra2tra2tra2tra2tra2s=''
          ''0+DZ39DdnZKyZ8Fra2traw=='' \<noteq> Inl DecryptError"
    using t by blast
  ultimately show ?thesis using k64 kv c64 by blast
qed

section \<open>The private key cipher\<close>

text \<open>
  C2 (every blob comes back from \<open>decrypt_privkey\<close> of its \<open>encrypt_privkey\<close>)
  fails on the code for the blob \<open>gw\<close>, under every correct cipher and every
  password it accepts, for the reason C1 fails: the zero last byte of the checksum
  is stripped with the padding, and \<open>decrypt_privkey\<close> raises \<open>DecryptError\<close>.
\<close>

theorem decrypt_encrypt_privkey_gw:
  assumes "cipher_correct Blowfish" "block_size Blowfish = 8" "key_valid Blowfish pw"
  shows "decrypt_encrypt_privkey Blowfish ''gw'' pw = Inl DecryptError"
proof -
  note eq = decrypt_encrypt_privkey_eq [of Blowfish pw "''gw''", OF assms]
  show ?thesis
    unfolding eq rstrip_wrapsum_gw chksum_stripped_gw ..
qed

theorem decrypt_encrypt_privkey_gw_witness:
  "cipher_correct (shift_cipher 8 [4, 8, 16, 56]) \<and>
   block_size (shift_cipher 8 [4, 8, 16, 56]) = 8 \<and>
   key_valid (shift_cipher 8 [4, 8, 16, 56]) ''pass'' \<and>
   encrypt_privkey (shift_cipher 8 [4, 8, 16, 56]) ''gw'' ''pass'' = Inr ''1+cVdHtwcHA='' \<and>
   decrypt_privkey (shift_cipher 8 [4, 8, 16, 56]) ''1+cVdHtwcHA='' ''pass'' = Inl DecryptError"
proof -
  let ?BF = "shift_cipher 8 [4, 8, 16, 56]"
  have c: "cipher_correct ?BF" by (rule cipher_correct_shift_cipher)
  have b: "block_size ?BF = 8" by (simp add: shift_cipher_def)
  have k: "key_valid ?BF ''pass''" by (simp add: shift_cipher_def)
  have e: "encrypt_privkey ?BF ''gw'' ''pass'' = Inr ''1+cVdHtwcHA=''" by code_simp
  have "decrypt_encrypt_privkey ?BF ''gw'' ''pass'' = Inl DecryptError"
    using decrypt_encrypt_privkey_gw [OF c b k] .
  then have d: "decrypt_privkey ?BF ''1+cVdHtwcHA='' ''pass'' = Inl DecryptError"
    unfolding decrypt_encrypt_privkey_def e by simp
  from c b k e d show ?thesis by simp
qed

text \<open>
  C4: whenever the CRC-32 recomputed over the zero-stripped decrypted payload
  differs from its last four bytes, \<open>decrypt_privkey\<close> raises \<open>DecryptError\<close>;
  and when it returns a value, the checksum has validated.
\<close>

theorem decrypt_privkey_checksum_failure:
  "(key_valid Blowfish pw \<and> b64decode something = Inr raw \<and>
    length raw mod block_size Blowfish = 0 \<and>
    (let stripped = rstrip (CHR 0x00) (ecb_decrypt Blowfish pw raw)
     in bytes_to_long (drop (length stripped - 4) stripped) \<noteq>
          (crc32 (take (length stripped - 4) stripped) AND 0xffffffff)) \<longrightarrow>
      decrypt_privkey Blowfish something pw = Inl DecryptError) \<and>
   (decrypt_privkey Blowfish something pw = Inr v \<longrightarrow>
      (\<exists>raw'. b64decode something = Inr raw' \<and>
         (let stripped = rstrip (CHR 0x00) (ecb_decrypt Blowfish pw raw')
          in bytes_to_long (drop (length stripped - 4) stripped) = (crc32 v AND 0xffffffff) \<and>
             v = take (length stripped - 4) stripped)))"
proof (intro conjI impI)
  assume h: "key_valid Blowfish pw \<and> b64decode something = Inr raw \<and>
    length raw mod block_size Blowfish = 0 \<and>
    (let stripped = rstrip (CHR 0x00) (ecb_decrypt Blowfish pw raw)
     in bytes_to_long (drop (length stripped - 4) stripped) \<noteq>
          (crc32 (take (length stripped - 4) stripped) AND 0xffffffff))"
  then have a: "key_valid Blowfish pw" and b: "b64decode something = Inr raw"
    and c: "length raw mod block_size Blowfish = 0" by simp_all
  have "decrypt_privkey Blowfish something pw =
               chksum (rstrip (CHR 0x00) (ecb_decrypt Blowfish pw raw))"
    using a b c by (rule decrypt_privkey_eq)
  moreover have "chksum (rstrip (CHR 0x00) (ecb_decrypt Blowfish pw raw)) = Inl DecryptError"
    using h by (simp add: chksum_Inl Let_def)
  ultimately show "decrypt_privkey Blowfish something pw = Inl DecryptError" by simp
next
  assume "decrypt_privkey Blowfish something pw = Inr v"
  then obtain raw' where r: "b64decode something = Inr raw'"
    "chksum (rstrip (CHR 0x00) (ecb_decrypt Blowfish pw raw')) = Inr v"
    using decrypt_privkey_Inr by blast
  from r(2) have
    "let stripped = rstrip (CHR 0x00) (ecb_decrypt Blowfish pw raw')
     in bytes_to_long (drop (length stripped - 4) stripped) = (crc32 v AND 0xffffffff) \<and>
        v = take (length stripped - 4) stripped"
    unfolding chksum_Inr Let_def by blast
  with r(1) show "\<exists>raw'. b64decode something = Inr raw' \<and>
         (let stripped = rstrip (CHR 0x00) (ecb_decrypt Blowfish pw raw')
          in bytes_to_long (drop (length stripped - 4) stripped) = (crc32 v AND 0xffffffff) \<and>
             v = take (length stripped - 4) stripped)"
    by blast
qed

theorem decrypt_privkey_checksum_failure_witness:
  "key_valid (shift_cipher 8 [4, 8, 16, 56]) ''pass'' \<and>
   b64decode ''AAAAAAAAAAA='' = Inr (replicate 8 (CHR 0x00)) \<and>
   rstrip (CHR 0x00) (ecb_decrypt (shift_cipher 8 [4, 8, 16, 56]) ''pass'' (replicate 8 (CHR 0x00)))
     = replicate 8 (CHR 0x90) \<and>
   bytes_to_long (replicate 4 (CHR 0x90)) \<noteq> (crc32 (replicate 4 (CHR 0x90)) AND 0xffffffff) \<and>
   decrypt_privkey (shift_cipher 8 [4, 8, 16, 56]) ''AAAAAAAAAAA='' ''pass'' = Inl DecryptError"
proof -
  let ?BF = "shift_cipher 8 [4, 8, 16, 56]"
  let ?raw = "replicate 8 (CHR 0x00)"
  have k: "key_valid ?BF ''pass''" by (simp add: shift_cipher_def)
  have "b64encode ?raw = ''AAAAAAAAAAA=''" by code_simp
  then have r64: "b64decode ''AAAAAAAAAAA='' = Inr ?raw"
    using b64decode_b64encode [of ?raw] by simp
  have len: "length ?raw mod block_size ?BF = 0" by (simp add: shift_cipher_def)
  have st: "rstrip (CHR 0x00) (ecb_decrypt ?BF ''pass'' ?raw) = replicate 8 (CHR 0x90)"
    by code_simp
  have ne: "bytes_to_long (replicate 4 (CHR 0x90)) \<noteq> (crc32 (replicate 4 (CHR 0x90)) AND 0xffffffff)"
    by code_simp
  have bad: "let stripped = rstrip (CHR 0x00) (ecb_decrypt ?BF ''pass'' ?raw)
             in bytes_to_long (drop (length stripped - 4) stripped) \<noteq>
                  (crc32 (take (length stripped - 4) stripped) AND 0xffffffff)"
    unfolding st Let_def using ne by simp
  have hyp: "key_valid ?BF ''pass'' \<and> b64decode ''AAAAAAAAAAA='' = Inr ?raw \<and>
    length ?raw mod block_size ?BF = 0 \<and>
    (let stripped = rstrip (CHR 0x00) (ecb_decrypt ?BF ''pass'' ?raw)
     in bytes_to_long (drop (length stripped - 4) stripped) \<noteq>
          (crc32 (take (length stripped - 4) stripped) AND 0xffffffff))"
    using k r64 len bad by (intro conjI)
  have "decrypt_privkey ?BF ''AAAAAAAAAAA='' ''pass'' = Inl DecryptError"
    using decrypt_privkey_checksum_failure [of ?BF "''pass''" "''AAAAAAAAAAA=''" ?raw,
        THEN conjunct1, THEN mp, OF hyp] .
  with k r64 st ne show ?thesis by blast
qed

end
